theory Spec2Isabelle
  imports Main
begin

section \<open>The sequential sorted list set (\<^verbatim>\<open>List_set.h\<close>)\<close>

text \<open>
  \<^verbatim>\<open>List_set<T>\<close> keeps its elements in a singly linked chain of heap nodes. Every
  link is a \<^verbatim>\<open>std::unique_ptr<Node>\<close>: either null or the address of a node on the free
  store. The free store is modelled explicitly, as an array of cells indexed by address,
  so that null links, dangling links, cycles and sharing are all expressible and the
  claims about them are statements, not artefacts of a type.
\<close>

subsection \<open>Data model\<close>

type_synonym addr = nat

text \<open>
  \<^verbatim>\<open>struct Node : Node_base<T> { T element; link_t next; }\<close>.
  A link is \<open>None\<close> for the null pointer and \<open>Some a\<close> for the node at address \<open>a\<close>.
\<close>

record 'a Node =
  element :: 'a
  "next" :: "addr option"

text \<open>
  The state an operation runs in: the free store \<open>store\<close>, and \<open>link\<close> for the member
  \<^verbatim>\<open>link_\<close> of the set object (the owner of the head node). The cell at address \<open>a\<close> of the
  free store is \<open>Some n\<close> while the node \<open>n\<close> lives there and \<open>None\<close> once it has been
  deleted; addresses beyond the end have never been handed out.
\<close>

record 'a List_set =
  store :: "'a Node option list"
  link :: "addr option"

text \<open>The live node at an address, if there is one.\<close>

definition nodes :: "'a List_set \<Rightarrow> addr \<Rightarrow> 'a Node option" where
  "nodes s a = (if a < length (store s) then store s ! a else None)"

text \<open>
  The address the next \<^verbatim>\<open>new Node{}\<close> returns: the first one beyond the cells handed out so
  far. The allocator never returns the address of a live node, and here it never reuses
  an address at all.
\<close>

definition brk :: "'a List_set \<Rightarrow> addr" where
  "brk s = length (store s)"

text \<open>
  Following a null link, or a link to an address that holds no live node, is undefined
  behaviour in C++; the model makes it a value.
\<close>

datatype error = Null_dereference

subsection \<open>Operations\<close>

text \<open>
  Modelled from the spec: \<^verbatim>\<open>Node_base.h\<close>, which declares \<^verbatim>\<open>is_last()\<close>, is not among the
  sources. The specification says that the tail sentinel is the unique node for which
  "is last" holds; the constructor builds the tail as the one node whose \<^verbatim>\<open>next\<close> link is
  null, and \<^verbatim>\<open>get_next()\<close> returns the raw successor pointer. So a node is last exactly
  when it has no successor.
\<close>

definition is_last :: "'a Node \<Rightarrow> bool" where
  "is_last n = (next n = None)"

text \<open>
  The constructor: \<^verbatim>\<open>tail{new Node{}}\<close>, \<^verbatim>\<open>head{new Node{}}\<close>, \<^verbatim>\<open>head->next = move(tail)\<close>,
  \<^verbatim>\<open>link_ = move(head)\<close>. Both sentinels hold the value-initialised element \<^verbatim>\<open>T{}\<close>,
  here the parameter \<open>dflt\<close>. The construction starts from the empty free store, so the
  tail is at address 0 and the head at address 1.
\<close>

definition new_List_set :: "'a \<Rightarrow> 'a List_set" where
  "new_List_set dflt =
     (let tail = (0::addr);
          m1 = [Some \<lparr>element = dflt, next = None\<rparr>];
          head = Suc tail;
          m2 = m1 @ [Some \<lparr>element = dflt, next = None\<rparr>];
          m3 = m2[head := Some \<lparr>element = dflt, next = Some tail\<rparr>]
      in \<lparr>store = m3, link = Some head\<rparr>)"

text \<open>
  The loop of \<^verbatim>\<open>find_predecessor\<close>, from a non-null \<^verbatim>\<open>ptr\<close>:
  \<^verbatim>\<open>for (...; !ptr->next->is_last(); ptr = &*ptr->next) if (key <= ptr->next->element) break;\<close>
  The condition reads the node at \<^verbatim>\<open>ptr\<close> and the node its link points to. The loop need
  not end on an arbitrary free store (a cyclic chain of small elements), so the result
  is an option: \<open>None\<close> stands for a loop that runs forever.
\<close>

partial_function (option) find_predecessor_loop ::
  "(addr \<Rightarrow> 'a::linorder Node option) \<Rightarrow> 'a \<Rightarrow> addr \<Rightarrow> (error + addr) option"
where
  "find_predecessor_loop h key ptr =
     (case h ptr of
        None \<Rightarrow> Some (Inl Null_dereference)
      | Some p \<Rightarrow>
          (case next p of
             None \<Rightarrow> Some (Inl Null_dereference)
           | Some q \<Rightarrow>
               (case h q of
                  None \<Rightarrow> Some (Inl Null_dereference)
                | Some n \<Rightarrow>
                    if is_last n then Some (Inr ptr)
                    else if key \<le> element n then Some (Inr ptr)
                    else find_predecessor_loop h key q)))"

declare find_predecessor_loop.simps [code]

text \<open>\<^verbatim>\<open>find_predecessor\<close>: the loop started at \<^verbatim>\<open>&*link_\<close>.\<close>

definition find_predecessor :: "'a::linorder List_set \<Rightarrow> 'a \<Rightarrow> (error + addr) option" where
  "find_predecessor s key =
     (case link s of
        None \<Rightarrow> Some (Inl Null_dereference)
      | Some head \<Rightarrow> find_predecessor_loop (nodes s) key head)"

text \<open>
  \<^verbatim>\<open>matches(prev, key)\<close>: \<^verbatim>\<open>!prev.next->is_last() && prev.next->element == key\<close>.
\<close>

definition matches :: "(addr \<Rightarrow> 'a Node option) \<Rightarrow> addr \<Rightarrow> 'a \<Rightarrow> error + bool" where
  "matches h prev key =
     (case h prev of
        None \<Rightarrow> Inl Null_dereference
      | Some p \<Rightarrow>
          (case next p of
             None \<Rightarrow> Inl Null_dereference
           | Some q \<Rightarrow>
               (case h q of
                  None \<Rightarrow> Inl Null_dereference
                | Some n \<Rightarrow> Inr (\<not> is_last n \<and> element n = key))))"

text \<open>\<^verbatim>\<open>member\<close> is a const method: it returns a truth value and leaves the state alone.\<close>

definition member_List_set :: "'a::linorder List_set \<Rightarrow> 'a \<Rightarrow> (error + bool) option" where
  "member_List_set s key =
     (case find_predecessor s key of
        None \<Rightarrow> None
      | Some (Inl e) \<Rightarrow> Some (Inl e)
      | Some (Inr prev) \<Rightarrow> Some (matches (nodes s) prev key))"

text \<open>
  \<^verbatim>\<open>remove\<close>. The assignment \<^verbatim>\<open>prev.next = std::move(prev.next->next)\<close> releases the link of
  the successor \<open>q\<close>, stores it in \<^verbatim>\<open>prev.next\<close>, and deletes the node \<open>q\<close> that \<^verbatim>\<open>prev.next\<close>
  owned before; the deleted node's own link is null by then, so nothing else is freed.
\<close>

definition remove_List_set ::
  "'a::linorder List_set \<Rightarrow> 'a \<Rightarrow> (error + bool \<times> 'a List_set) option" where
  "remove_List_set s key =
     (case find_predecessor s key of
        None \<Rightarrow> None
      | Some (Inl e) \<Rightarrow> Some (Inl e)
      | Some (Inr prev) \<Rightarrow>
          (case matches (nodes s) prev key of
             Inl e \<Rightarrow> Some (Inl e)
           | Inr False \<Rightarrow> Some (Inr (False, s))
           | Inr True \<Rightarrow>
               (case nodes s prev of
                  None \<Rightarrow> Some (Inl Null_dereference)
                | Some p \<Rightarrow>
                    (case next p of
                       None \<Rightarrow> Some (Inl Null_dereference)
                     | Some q \<Rightarrow>
                         (case nodes s q of
                            None \<Rightarrow> Some (Inl Null_dereference)
                          | Some n \<Rightarrow>
                              Some (Inr (True,
                                s\<lparr>store := (store s)[prev := Some (p\<lparr>next := next n\<rparr>),
                                                     q := None]\<rparr>)))))))"

text \<open>
  \<^verbatim>\<open>insert\<close>. \<^verbatim>\<open>new Node{}\<close> takes a new cell, at address \<open>brk\<close>; the new node gets \<^verbatim>\<open>key\<close> and the
  link moved out of \<^verbatim>\<open>prev.next\<close>; then \<^verbatim>\<open>prev.next\<close> (null after the move, so nothing is
  freed) takes the new node.
\<close>

definition insert_List_set ::
  "'a::linorder List_set \<Rightarrow> 'a \<Rightarrow> (error + bool \<times> 'a List_set) option" where
  "insert_List_set s key =
     (case find_predecessor s key of
        None \<Rightarrow> None
      | Some (Inl e) \<Rightarrow> Some (Inl e)
      | Some (Inr prev) \<Rightarrow>
          (case matches (nodes s) prev key of
             Inl e \<Rightarrow> Some (Inl e)
           | Inr True \<Rightarrow> Some (Inr (False, s))
           | Inr False \<Rightarrow>
               (case nodes s prev of
                  None \<Rightarrow> Some (Inl Null_dereference)
                | Some p \<Rightarrow>
                    (let new_node = brk s;
                         m1 = store s @ [Some \<lparr>element = key, next = next p\<rparr>];
                         m2 = m1[prev := Some (p\<lparr>next := Some new_node\<rparr>)]
                     in Some (Inr (True, s\<lparr>store := m2\<rparr>))))))"

text \<open>\<^verbatim>\<open>head()\<close>: the raw pointer \<^verbatim>\<open>&*link_\<close>.\<close>

definition head :: "'a List_set \<Rightarrow> addr option" where
  "head s = link s"

subsection \<open>The chain of a state\<close>

text \<open>
  \<open>chain h p as\<close>: starting from the link \<open>p\<close>, the free store \<open>h\<close> holds exactly the nodes
  \<open>as\<close> (address and content, in order), and the last of them has a null link.
\<close>

fun chain :: "(addr \<Rightarrow> 'a Node option) \<Rightarrow> addr option \<Rightarrow> (addr \<times> 'a Node) list \<Rightarrow> bool" where
  "chain h p [] = (p = None)"
| "chain h p ((a, n) # as) = (p = Some a \<and> h a = Some n \<and> chain h (next n) as)"

text \<open>
  The diagnostic traversal (\<^verbatim>\<open>head()\<close>, then \<^verbatim>\<open>get_next()\<close> until null), cut off after
  \<open>fuel\<close> nodes: \<open>None\<close> when it meets a dangling link or has not reached null by then.
\<close>

fun walk :: "nat \<Rightarrow> (addr \<Rightarrow> 'a Node option) \<Rightarrow> addr option \<Rightarrow> (addr \<times> 'a Node) list option" where
  "walk fuel h None = Some []"
| "walk 0 h (Some a) = None"
| "walk (Suc fuel) h (Some a) =
     (case h a of
        None \<Rightarrow> None
      | Some n \<Rightarrow> map_option ((#) (a, n)) (walk fuel h (next n)))"

text \<open>
  Only \<open>brk\<close> addresses have ever been handed out, so a chain of live, pairwise different
  nodes has at most \<open>brk\<close> of them, and a walk that is longer has run into a cycle.
\<close>

definition reach :: "'a List_set \<Rightarrow> (addr \<times> 'a Node) list option" where
  "reach s = walk (brk s) (nodes s) (link s)"

text \<open>The elements of the set: those of the nodes strictly between the two sentinels.\<close>

definition inner :: "(addr \<times> 'a Node) list \<Rightarrow> 'a list" where
  "inner as = map (\<lambda>x. element (snd x)) (butlast (tl as))"

definition elems :: "'a List_set \<Rightarrow> 'a list" where
  "elems s = (case reach s of None \<Rightarrow> [] | Some as \<Rightarrow> inner as)"

text \<open>
  A well-formed state: from \<^verbatim>\<open>link_\<close> a finite chain of live nodes leads to a null link
  (no cycle, no dangling link), it has at least the head and the tail sentinel, and no
  node occurs twice in it.
\<close>

definition well_formed :: "'a List_set \<Rightarrow> bool" where
  "well_formed s =
     (case reach s of
        None \<Rightarrow> False
      | Some as \<Rightarrow> 2 \<le> length as \<and> distinct (map fst as))"

text \<open>The invariant of the data model: well-formed, and strictly ascending by element.\<close>

definition invariant :: "'a::linorder List_set \<Rightarrow> bool" where
  "invariant s = (well_formed s \<and> sorted_wrt (<) (elems s))"

text \<open>
  A state to run the operations on: the set after \<^verbatim>\<open>List_set<int> s; s.insert(8); s.insert(3);\<close>.
  The tail sentinel is at address 0, the head sentinel at 1, the node of 8 at 2 and the
  node of 3 at 3.
\<close>

definition sample :: "int List_set" where
  "sample =
     \<lparr>store =
        [Some \<lparr>element = 0, next = None\<rparr>,
         Some \<lparr>element = 0, next = Some 3\<rparr>,
         Some \<lparr>element = 8, next = Some 0\<rparr>,
         Some \<lparr>element = 3, next = Some 2\<rparr>],
      link = Some 1\<rparr>"

text \<open>
  A state that is not well-formed: the link of the head node leads to a node whose link
  leads back to the head, and no node has a null link.
\<close>

definition cyclic :: "int List_set" where
  "cyclic =
     \<lparr>store =
        [Some \<lparr>element = 0, next = Some 1\<rparr>,
         Some \<lparr>element = 3, next = Some 0\<rparr>],
      link = Some 0\<rparr>"

section \<open>Chains on the free store\<close>

lemma chain_None [simp]: "chain h None as = (as = [])"
  by (cases as) auto

lemma chain_unique: "chain h p as \<Longrightarrow> chain h p bs \<Longrightarrow> as = bs"
proof (induction as arbitrary: p bs)
  case Nil
  then show ?case by simp
next
  case (Cons x as)
  obtain a n where x: "x = (a, n)" by (cases x)
  from Cons.prems x obtain bs' where bs: "bs = (a, n) # bs'"
    by (cases bs) auto
  with Cons.prems x have "chain h (next n) as" "chain h (next n) bs'" by auto
  then have "as = bs'" by (rule Cons.IH)
  with x bs show ?case by simp
qed

lemma chain_suffix: "chain h p (as @ (b, m) # bs) \<Longrightarrow> chain h (Some b) ((b, m) # bs)"
  by (induction as arbitrary: p) auto

lemma chain_head_fresh:
  assumes "h a = Some n" and "chain h (next n) as"
  shows "a \<notin> fst ` set as"
proof
  assume "a \<in> fst ` set as"
  then obtain m where "(a, m) \<in> set as" by auto
  then obtain us vs where as: "as = us @ (a, m) # vs"
    by (auto simp: in_set_conv_decomp)
  with assms(2) have c: "chain h (Some a) ((a, m) # vs)"
    by (auto dest: chain_suffix)
  with assms(1) have "m = n" by simp
  with c have "chain h (next n) vs" by simp
  with assms(2) have "as = vs" by (rule chain_unique)
  with as show False by simp
qed

lemma chain_distinct: "chain h p as \<Longrightarrow> distinct (map fst as)"
proof (induction as arbitrary: p)
  case Nil
  then show ?case by simp
next
  case (Cons x as)
  obtain a n where x: "x = (a, n)" by (cases x)
  with Cons.prems have "h a = Some n" "chain h (next n) as" by auto
  then have "a \<notin> fst ` set as" "distinct (map fst as)"
    using chain_head_fresh Cons.IH by blast+
  with x show ?case by simp
qed

lemma chain_update_other:
  "a \<notin> fst ` set as \<Longrightarrow> chain (h(a := v)) p as = chain h p as"
  by (induction as arbitrary: p) auto

lemma walk_chain: "walk n h p = Some as \<Longrightarrow> chain h p as"
proof (induction n h p arbitrary: as rule: walk.induct)
  case (1 fuel h)
  then show ?case by simp
next
  case (2 h a)
  then show ?case by simp
next
  case (3 fuel h a)
  then show ?case by (auto split: option.splits)
qed

lemma chain_walk: "chain h p as \<Longrightarrow> length as \<le> n \<Longrightarrow> walk n h p = Some as"
proof (induction as arbitrary: p n)
  case Nil
  then show ?case by simp
next
  case (Cons x as)
  obtain a m where x: "x = (a, m)" by (cases x)
  from Cons.prems obtain k where n: "n = Suc k" by (cases n) auto
  with Cons.prems x have "walk k h (next m) = Some as"
    by (intro Cons.IH) auto
  with Cons.prems x n show ?case by simp
qed

lemma distinct_bounded_length:
  assumes "distinct (map fst as)" and "list_all (\<lambda>x. fst x < (n::nat)) as"
  shows "length as \<le> n"
proof -
  have "length as = card (set (map fst as))"
    using assms(1) by (simp add: distinct_card del: set_map)
  also have "\<dots> \<le> card {..<n}"
    using assms(2) by (intro card_mono) (auto simp: list_all_iff)
  finally show ?thesis by simp
qed

text \<open>Live nodes sit at addresses that have been handed out.\<close>

lemma nodes_live: "nodes s a = Some n \<Longrightarrow> a < brk s"
  by (simp add: nodes_def brk_def split: if_splits)

lemma chain_live: "chain (nodes s) p as \<Longrightarrow> list_all (\<lambda>x. fst x < brk s) as"
  by (induction as arbitrary: p) (auto dest: nodes_live)

lemma chain_reach:
  assumes "chain (nodes s) (link s) as"
  shows "reach s = Some as"
proof -
  from assms have "distinct (map fst as)" by (rule chain_distinct)
  moreover from assms have "list_all (\<lambda>x. fst x < brk s) as" by (rule chain_live)
  ultimately have "length as \<le> brk s" by (rule distinct_bounded_length)
  with assms show ?thesis by (simp add: reach_def chain_walk)
qed

lemma well_formed_iff:
  "well_formed s \<longleftrightarrow> (\<exists>as. chain (nodes s) (link s) as \<and> 2 \<le> length as)"
  (is "?L = ?R")
proof
  assume ?L
  then show ?R
    by (auto simp: well_formed_def reach_def split: option.splits dest: walk_chain)
next
  assume ?R
  then obtain as where as: "chain (nodes s) (link s) as" "2 \<le> length as" by blast
  from as(1) have d: "distinct (map fst as)" by (rule chain_distinct)
  from as(1) have "reach s = Some as" by (rule chain_reach)
  with as d show ?L by (simp add: well_formed_def)
qed

text \<open>The free store after the two kinds of update.\<close>

lemma nodes_spliced:
  assumes "r < brk s"
  shows "nodes (s\<lparr>store := (store s @ [Some N])[r := Some M]\<rparr>) = (nodes s)(brk s \<mapsto> N, r \<mapsto> M)"
  using assms by (auto simp: fun_eq_iff nodes_def brk_def nth_append nth_list_update)

lemma nodes_unlinked:
  assumes "r < brk s" and "q < brk s"
  shows "nodes (s\<lparr>store := (store s)[r := Some M, q := None]\<rparr>) = (nodes s)(r \<mapsto> M, q := None)"
  using assms by (auto simp: fun_eq_iff nodes_def brk_def nth_list_update)

section \<open>The search loop and the two link updates\<close>

lemma inner_sentinels [simp]: "inner (x # ys @ [t]) = map (\<lambda>x. element (snd x)) ys"
  by (simp add: inner_def butlast_append)

lemma two_sentinels:
  assumes "2 \<le> length as"
  obtains x mid t where "as = x # mid @ [t]"
proof -
  from assms obtain x bs where 1: "as = x # bs" by (cases as) auto
  with assms have "bs \<noteq> []" by auto
  then obtain mid t where "bs = mid @ [t]" by (cases bs rule: rev_cases) auto
  with 1 that show ?thesis by blast
qed

lemma chain_last_link: "chain h p (as @ [(a, n)]) \<Longrightarrow> next n = None"
  by (induction as arbitrary: p) auto

lemma chain_inner_link: "chain h p (as @ (a, n) # (b, m) # bs) \<Longrightarrow> h a = Some n \<and> next n = Some b \<and> h b = Some m"
  by (induction as arbitrary: p) auto

lemma find_predecessor_loop_chain:
  "chain h (Some p) ((p, pn) # mid @ [t]) \<Longrightarrow>
   find_predecessor_loop h key p =
     Some (Inr (fst (last ((p, pn) # takeWhile (\<lambda>x. element (snd x) < key) mid))))"
proof (induction mid arbitrary: p pn)
  case Nil
  obtain b m where t: "t = (b, m)" by (cases t)
  with Nil show ?case
    by (subst find_predecessor_loop.simps) (simp add: is_last_def)
next
  case (Cons x mid)
  obtain q qn where x: "x = (q, qn)" by (cases x)
  with Cons.prems have c: "h p = Some pn" "next pn = Some q" "h q = Some qn"
    "chain h (next qn) (mid @ [t])" by auto
  from c(4) have nl: "\<not> is_last qn" by (cases "mid @ [t]") (auto simp: is_last_def)
  show ?case
  proof (cases "key \<le> element qn")
    case True
    then have "\<not> element qn < key" by simp
    with True c nl x show ?thesis
      by (subst find_predecessor_loop.simps) simp
  next
    case False
    from c(4) nl have "chain h (Some q) ((q, qn) # mid @ [t])"
      using c(3) by (cases "mid @ [t]") (auto simp: is_last_def)
    then have "find_predecessor_loop h key q =
      Some (Inr (fst (last ((q, qn) # takeWhile (\<lambda>x. element (snd x) < key) mid))))"
      by (rule Cons.IH)
    moreover from False have "element qn < key" by simp
    ultimately show ?thesis using False c nl x
      by (subst find_predecessor_loop.simps) simp
  qed
qed

text \<open>Where the search stops, in terms of the chain.\<close>

lemma locate:
  assumes "chain h (Some p) ((p, pn) # mid @ [t])"
  obtains pre r rn q qn post where
    "(p, pn) # mid @ [t] = pre @ (r, rn) # (q, qn) # post"
    "find_predecessor_loop h key p = Some (Inr r)"
    "pre @ [(r, rn)] = (p, pn) # takeWhile (\<lambda>x. element (snd x) < key) mid"
    "(q, qn) # post = dropWhile (\<lambda>x. element (snd x) < key) mid @ [t]"
proof -
  let ?A = "takeWhile (\<lambda>x. element (snd x) < key) mid"
  let ?B = "dropWhile (\<lambda>x. element (snd x) < key) mid"
  obtain r rn where r: "last ((p, pn) # ?A) = (r, rn)" by (cases "last ((p, pn) # ?A)")
  obtain q qn post where q: "?B @ [t] = (q, qn) # post" by (cases "?B @ [t]") auto
  have 1: "butlast ((p, pn) # ?A) @ [(r, rn)] = (p, pn) # ?A"
    using r append_butlast_last_id [of "(p, pn) # ?A"] by simp
  have "(p, pn) # mid @ [t] = ((p, pn) # ?A) @ (?B @ [t])" by simp
  also have "\<dots> = (butlast ((p, pn) # ?A) @ [(r, rn)]) @ ((q, qn) # post)"
    by (simp only: q 1)
  also have "\<dots> = butlast ((p, pn) # ?A) @ (r, rn) # (q, qn) # post"
    by simp
  finally have 2: "(p, pn) # mid @ [t] = butlast ((p, pn) # ?A) @ (r, rn) # (q, qn) # post" .
  have 3: "find_predecessor_loop h key p = Some (Inr r)"
    using find_predecessor_loop_chain [OF assms, of key] r by simp
  from 2 3 1 q [symmetric] show ?thesis by (rule that)
qed

lemma chain_splice:
  assumes "chain h p (pre @ (r, rn) # post)"
    and "a \<notin> fst ` set (pre @ (r, rn) # post)"
    and "next N = next rn"
  shows "chain (h(a \<mapsto> N, r \<mapsto> rn\<lparr>next := Some a\<rparr>)) p
           (pre @ (r, rn\<lparr>next := Some a\<rparr>) # (a, N) # post)"
proof -
  from assms(1) have "distinct (map fst (pre @ (r, rn) # post))" by (rule chain_distinct)
  with assms show ?thesis
  proof (induction pre arbitrary: p)
    case Nil
    then have f: "r \<notin> fst ` set post" "a \<notin> fst ` set post" "a \<noteq> r" by auto
    from Nil have c: "p = Some r" "h r = Some rn" "chain h (next rn) post" by auto
    have "chain (h(a \<mapsto> N, r \<mapsto> rn\<lparr>next := Some a\<rparr>)) (next rn) post =
          chain (h(a \<mapsto> N)) (next rn) post"
      by (rule chain_update_other) (rule f)
    also have "\<dots> = chain h (next rn) post"
      by (rule chain_update_other) (rule f)
    finally have "chain (h(a \<mapsto> N, r \<mapsto> rn\<lparr>next := Some a\<rparr>)) (next rn) post =
          chain h (next rn) post" .
    with c have "chain (h(a \<mapsto> N, r \<mapsto> rn\<lparr>next := Some a\<rparr>)) (next N) post"
      using Nil.prems(3) by simp
    moreover have "(h(a \<mapsto> N, r \<mapsto> rn\<lparr>next := Some a\<rparr>)) r = Some (rn\<lparr>next := Some a\<rparr>)"
      "(h(a \<mapsto> N, r \<mapsto> rn\<lparr>next := Some a\<rparr>)) a = Some N"
      using f by simp_all
    ultimately show ?case using c by (simp del: fun_upd_apply)
  next
    case (Cons x pre)
    obtain b m where x: "x = (b, m)" by (cases x)
    with Cons.prems have "b \<noteq> r" "b \<noteq> a" by auto
    then have "(h(a \<mapsto> N, r \<mapsto> rn\<lparr>next := Some a\<rparr>)) b = h b" by simp
    with Cons x show ?case by (simp del: fun_upd_apply)
  qed
qed

lemma chain_unlink:
  assumes "chain h p (pre @ (r, rn) # (q, qn) # post)"
  shows "chain ((h(r \<mapsto> rn\<lparr>next := next qn\<rparr>))(q := None)) p
           (pre @ (r, rn\<lparr>next := next qn\<rparr>) # post)"
proof -
  from assms have "distinct (map fst (pre @ (r, rn) # (q, qn) # post))" by (rule chain_distinct)
  with assms show ?thesis
  proof (induction pre arbitrary: p)
    case Nil
    then have f: "r \<notin> fst ` set post" "q \<notin> fst ` set post" "q \<noteq> r" by auto
    from Nil have c: "p = Some r" "h r = Some rn" "chain h (next qn) post" by auto
    have "chain ((h(r \<mapsto> rn\<lparr>next := next qn\<rparr>))(q := None)) (next qn) post =
          chain (h(r \<mapsto> rn\<lparr>next := next qn\<rparr>)) (next qn) post"
      by (rule chain_update_other) (rule f)
    also have "\<dots> = chain h (next qn) post"
      by (rule chain_update_other) (rule f)
    finally have "chain ((h(r \<mapsto> rn\<lparr>next := next qn\<rparr>))(q := None)) (next qn) post =
          chain h (next qn) post" .
    with c have "chain ((h(r \<mapsto> rn\<lparr>next := next qn\<rparr>))(q := None)) (next qn) post"
      by simp
    moreover have "((h(r \<mapsto> rn\<lparr>next := next qn\<rparr>))(q := None)) r = Some (rn\<lparr>next := next qn\<rparr>)"
      using f by simp
    ultimately show ?case using c by (simp del: fun_upd_apply)
  next
    case (Cons x pre)
    obtain b m where x: "x = (b, m)" by (cases x)
    with Cons.prems have "b \<noteq> r" "b \<noteq> q" by auto
    then have "((h(r \<mapsto> rn\<lparr>next := next qn\<rparr>))(q := None)) b = h b" by simp
    with Cons x show ?case by (simp del: fun_upd_apply)
  qed
qed

lemma inner_split:
  "inner (pre @ x # y # post) =
     tl (map (\<lambda>x. element (snd x)) (pre @ [x])) @ butlast (map (\<lambda>x. element (snd x)) (y # post))"
proof -
  have "tl (pre @ x # y # post) = tl (pre @ [x]) @ y # post"
    by (cases pre) simp_all
  then have "butlast (tl (pre @ x # y # post)) = tl (pre @ [x]) @ butlast (y # post)"
    by (simp add: butlast_append)
  then show ?thesis
    by (simp add: inner_def map_butlast map_tl del: butlast.simps)
qed

text \<open>What a search finds in a well-formed state.\<close>

lemma located:
  assumes "chain (nodes s) (link s) as" and "2 \<le> length as"
  obtains pre r rn q qn post where
    "as = pre @ (r, rn) # (q, qn) # post"
    "find_predecessor s key = Some (Inr r)"
    "\<forall>x \<in> set (tl (pre @ [(r, rn)])). element (snd x) < key"
    "post = [] \<or> key \<le> element qn"
proof -
  from assms(2) obtain x mid t where 1: "as = x # mid @ [t]" by (rule two_sentinels)
  obtain p pn where x: "x = (p, pn)" by (cases x)
  from assms(1) 1 x have l: "link s = Some p"
    and c: "chain (nodes s) (Some p) ((p, pn) # mid @ [t])"
    by auto
  let ?P = "\<lambda>x. element (snd x) < key"
  from c obtain pre r rn q qn post where
    2: "(p, pn) # mid @ [t] = pre @ (r, rn) # (q, qn) # post"
    and 3: "find_predecessor_loop (nodes s) key p = Some (Inr r)"
    and 4: "pre @ [(r, rn)] = (p, pn) # takeWhile ?P mid"
    and 5: "(q, qn) # post = dropWhile ?P mid @ [t]"
    by (rule locate)
  have a: "as = pre @ (r, rn) # (q, qn) # post"
    using 1 x 2 by simp
  have f: "find_predecessor s key = Some (Inr r)"
    using l 3 by (simp add: find_predecessor_def)
  have d: "\<forall>x \<in> set (tl (pre @ [(r, rn)])). element (snd x) < key"
    unfolding 4 by (auto dest: set_takeWhileD)
  have e: "post = [] \<or> key \<le> element qn"
  proof (cases "dropWhile ?P mid")
    case Nil
    with 5 show ?thesis by simp
  next
    case (Cons y ys)
    with 5 have "y = (q, qn)" by simp
    moreover from Cons have "\<not> ?P (hd (dropWhile ?P mid))"
      using hd_dropWhile [of ?P mid] by simp
    ultimately have "key \<le> element qn" using Cons by (simp add: not_less)
    then show ?thesis ..
  qed
  from a f d e show ?thesis by (rule that)
qed

lemma well_formed_chain:
  assumes "well_formed s"
  obtains as where "chain (nodes s) (link s) as" "2 \<le> length as"
    "reach s = Some as"
proof -
  from assms obtain as where as: "chain (nodes s) (link s) as" "2 \<le> length as"
    unfolding well_formed_iff by blast
  from as(1) have "reach s = Some as" by (rule chain_reach)
  with as show ?thesis by (rule that)
qed

lemma chain_elems:
  assumes "chain (nodes s) (link s) as"
  shows "elems s = inner as"
  using chain_reach [OF assms] by (simp add: elems_def)

lemma matches_located:
  assumes "chain h p (pre @ (r, rn) # (q, qn) # post)"
  shows "matches h r key = Inr (post \<noteq> [] \<and> element qn = key)"
proof -
  from assms have "h r = Some rn" "next rn = Some q" "h q = Some qn"
    by (auto dest: chain_inner_link)
  moreover from assms have "chain h (Some q) ((q, qn) # post)"
    using chain_suffix [of h p "pre @ [(r, rn)]" q qn post] by simp
  then have "is_last qn \<longleftrightarrow> post = []"
    by (cases post) (auto simp: is_last_def)
  ultimately show ?thesis by (simp add: matches_def)
qed

text \<open>In a sorted chain the key is an element exactly when the search stops in front of it.\<close>

lemma sorted_member_located:
  fixes key :: "'a::linorder"
  assumes "sorted_wrt (<) (L @ R)" and "\<forall>x \<in> set L. x < key" and "R = [] \<or> key \<le> hd R"
  shows "key \<in> set (L @ R) \<longleftrightarrow> R \<noteq> [] \<and> hd R = key"
proof (cases R)
  case Nil
  with assms(2) show ?thesis by auto
next
  case (Cons y ys)
  with assms have "key \<le> y" "\<forall>z \<in> set ys. y < z" "key \<notin> set L"
    by (auto simp: sorted_wrt_append)
  with Cons show ?thesis by auto
qed

section \<open>The operations on a located chain\<close>

lemma member_located:
  assumes "chain (nodes s) (link s) (pre @ (r, rn) # (q, qn) # post)"
    and "find_predecessor s key = Some (Inr r)"
  shows "member_List_set s key = Some (Inr (post \<noteq> [] \<and> element qn = key))"
  using assms(2) matches_located [OF assms(1), of key]
  by (simp add: member_List_set_def)

lemma insert_located:
  assumes "chain (nodes s) (link s) (pre @ (r, rn) # (q, qn) # post)"
    and "find_predecessor s key = Some (Inr r)"
  shows "insert_List_set s key =
    Some (Inr (if post \<noteq> [] \<and> element qn = key then (False, s)
               else (True, s\<lparr>store := (store s @ [Some \<lparr>element = key, next = Some q\<rparr>])
                                        [r := Some (rn\<lparr>next := Some (brk s)\<rparr>)]\<rparr>)))"
proof -
  from assms(1) have "nodes s r = Some rn" "next rn = Some q"
    by (auto dest: chain_inner_link)
  with assms(2) matches_located [OF assms(1), of key] show ?thesis
    by (simp add: insert_List_set_def Let_def)
qed

lemma remove_located:
  assumes "chain (nodes s) (link s) (pre @ (r, rn) # (q, qn) # post)"
    and "find_predecessor s key = Some (Inr r)"
  shows "remove_List_set s key =
    Some (Inr (if post \<noteq> [] \<and> element qn = key
               then (True, s\<lparr>store := (store s)[r := Some (rn\<lparr>next := next qn\<rparr>), q := None]\<rparr>)
               else (False, s)))"
proof -
  from assms(1) have "nodes s r = Some rn" "next rn = Some q" "nodes s q = Some qn"
    by (auto dest: chain_inner_link)
  with assms(2) matches_located [OF assms(1), of key] show ?thesis
    by (simp add: remove_List_set_def)
qed

lemma bound_fresh: "list_all (\<lambda>x. fst x < (n::nat)) as \<Longrightarrow> n \<notin> fst ` set as"
  by (auto simp: list_all_iff)

lemma butlast_Cons2: "butlast (x # y # ys) = x # butlast (y # ys)"
  by simp

text \<open>The state after a splice.\<close>

lemma spliced:
  assumes c: "chain (nodes s) (link s) (pre @ (r, rn) # (q, qn) # post)"
    and s': "s' = s\<lparr>store := (store s @ [Some \<lparr>element = key, next = Some q\<rparr>])
                                [r := Some (rn\<lparr>next := Some (brk s)\<rparr>)]\<rparr>"
  shows "well_formed s'"
    and "elems s' = tl (map (\<lambda>x. element (snd x)) (pre @ [(r, rn)])) @ key
                      # butlast (map (\<lambda>x. element (snd x)) ((q, qn) # post))"
    and "reach s' = Some (pre @ (r, rn\<lparr>next := Some (brk s)\<rparr>)
                           # (brk s, \<lparr>element = key, next = Some q\<rparr>) # (q, qn) # post)"
proof -
  let ?N = "\<lparr>element = key, next = Some q\<rparr>"
  let ?as = "pre @ (r, rn\<lparr>next := Some (brk s)\<rparr>) # (brk s, ?N) # (q, qn) # post"
  from c have "list_all (\<lambda>x. fst x < brk s) (pre @ (r, rn) # (q, qn) # post)"
    by (rule chain_live)
  then have fresh: "brk s \<notin> fst ` set (pre @ (r, rn) # (q, qn) # post)"
    by (rule bound_fresh)
  from c have n: "nodes s r = Some rn" "next rn = Some q" by (auto dest: chain_inner_link)
  then have "next ?N = next rn" by simp
  with c fresh have "chain ((nodes s)(brk s \<mapsto> ?N, r \<mapsto> rn\<lparr>next := Some (brk s)\<rparr>)) (link s) ?as"
    by (rule chain_splice)
  moreover from n(1) have "r < brk s" by (rule nodes_live)
  then have "nodes s' = (nodes s)(brk s \<mapsto> ?N, r \<mapsto> rn\<lparr>next := Some (brk s)\<rparr>)"
    unfolding s' by (rule nodes_spliced)
  moreover have "link s' = link s" by (simp add: s')
  ultimately have 1: "chain (nodes s') (link s') ?as" by simp
  then show "well_formed s'"
    unfolding well_formed_iff by (intro exI [of _ ?as]) simp
  from 1 have "elems s' = inner ?as" by (rule chain_elems)
  then show "elems s' = tl (map (\<lambda>x. element (snd x)) (pre @ [(r, rn)])) @ key
                      # butlast (map (\<lambda>x. element (snd x)) ((q, qn) # post))"
    by (simp add: inner_split butlast_Cons2 del: butlast.simps)
  from 1 show "reach s' = Some ?as" by (rule chain_reach)
qed

text \<open>The state after an unlink.\<close>

lemma unlinked:
  assumes c: "chain (nodes s) (link s) (pre @ (r, rn) # (q, qn) # post)"
    and p: "post \<noteq> []"
    and s': "s' = s\<lparr>store := (store s)[r := Some (rn\<lparr>next := next qn\<rparr>), q := None]\<rparr>"
  shows "well_formed s'"
    and "elems s' = tl (map (\<lambda>x. element (snd x)) (pre @ [(r, rn)]))
                      @ tl (butlast (map (\<lambda>x. element (snd x)) ((q, qn) # post)))"
    and "reach s' = Some (pre @ (r, rn\<lparr>next := next qn\<rparr>) # post)"
    and "nodes s' q = None"
proof -
  let ?as = "pre @ (r, rn\<lparr>next := next qn\<rparr>) # post"
  from p obtain y ys where post: "post = y # ys" by (cases post) auto
  from c have "chain ((nodes s)(r \<mapsto> rn\<lparr>next := next qn\<rparr>, q := None)) (link s) ?as"
    by (rule chain_unlink)
  moreover from c have "nodes s r = Some rn" "nodes s q = Some qn"
    by (auto dest: chain_inner_link)
  then have "r < brk s" "q < brk s" by (auto dest: nodes_live)
  then have n: "nodes s' = (nodes s)(r \<mapsto> rn\<lparr>next := next qn\<rparr>, q := None)"
    unfolding s' by (rule nodes_unlinked)
  moreover have "link s' = link s" by (simp add: s')
  ultimately have 1: "chain (nodes s') (link s') ?as" by simp
  with post show "well_formed s'"
    unfolding well_formed_iff by (intro exI [of _ ?as]) simp
  from 1 have "elems s' = inner ?as" by (rule chain_elems)
  then show "elems s' = tl (map (\<lambda>x. element (snd x)) (pre @ [(r, rn)]))
                      @ tl (butlast (map (\<lambda>x. element (snd x)) ((q, qn) # post)))"
    by (simp add: post inner_split butlast_Cons2 del: butlast.simps)
  from 1 show "reach s' = Some ?as" by (rule chain_reach)
  from n show "nodes s' q = None" by simp
qed

lemma located_elems:
  assumes "chain (nodes s) (link s) (pre @ (r, rn) # (q, qn) # post)"
  shows "elems s = tl (map (\<lambda>x. element (snd x)) (pre @ [(r, rn)]))
                     @ butlast (map (\<lambda>x. element (snd x)) ((q, qn) # post))"
  using chain_elems [OF assms] by (simp add: inner_split del: butlast.simps)

section \<open>The operations on the set of elements\<close>

lemma sorted_insert_located:
  fixes key :: "'a::linorder"
  assumes "sorted_wrt (<) (L @ R)" and "\<forall>x \<in> set L. x < key" and "R = [] \<or> key < hd R"
  shows "sorted_wrt (<) (L @ key # R)"
proof (cases R)
  case Nil
  with assms show ?thesis by (auto simp: sorted_wrt_append)
next
  case (Cons y ys)
  with assms have "key < y" "\<forall>z \<in> set ys. y < z" by (auto simp: sorted_wrt_append)
  with assms Cons show ?thesis by (auto simp: sorted_wrt_append)
qed

lemma sorted_remove_located:
  fixes key :: "'a::linorder"
  assumes "sorted_wrt (<) (L @ R)" and "R \<noteq> []" and "hd R = key"
  shows "sorted_wrt (<) (L @ tl R)" and "set (L @ tl R) = set (L @ R) - {key}"
proof -
  from assms(2,3) obtain ys where R: "R = key # ys" by (cases R) auto
  with assms(1) show "sorted_wrt (<) (L @ tl R)" by (auto simp: sorted_wrt_append)
  from assms(1) R have "key \<notin> set L" "key \<notin> set ys" by (auto simp: sorted_wrt_append)
  with R show "set (L @ tl R) = set (L @ R) - {key}" by auto
qed

lemma successor_elems:
  "butlast (map f (y # post)) = [] \<longleftrightarrow> post = []"
  "post \<noteq> [] \<Longrightarrow> hd (butlast (map f (y # post))) = f y"
  by simp_all

text \<open>The full account of a search in a state that satisfies the invariant.\<close>

lemma invariant_located:
  assumes "invariant s"
  obtains pre r rn q qn post L R where
    "chain (nodes s) (link s) (pre @ (r, rn) # (q, qn) # post)"
    "find_predecessor s key = Some (Inr r)"
    "L = tl (map (\<lambda>x. element (snd x)) (pre @ [(r, rn)]))"
    "R = butlast (map (\<lambda>x. element (snd x)) ((q, qn) # post))"
    "elems s = L @ R"
    "sorted_wrt (<) (L @ R)"
    "\<forall>x \<in> set L. x < key"
    "R = [] \<or> key \<le> hd R"
    "key \<in> set (elems s) \<longleftrightarrow> post \<noteq> [] \<and> element qn = key"
    "reach s = Some (pre @ (r, rn) # (q, qn) # post)"
    "\<forall>x \<in> set (tl (pre @ [(r, rn)])). element (snd x) < key"
    "post = [] \<or> key \<le> element qn"
proof -
  from assms have wf: "well_formed s" and so: "sorted_wrt (<) (elems s)"
    by (simp_all add: invariant_def)
  from wf obtain as where as: "chain (nodes s) (link s) as" "2 \<le> length as"
    "reach s = Some as"
    by (rule well_formed_chain)
  from as(1,2) obtain pre r rn q qn post where
    1: "as = pre @ (r, rn) # (q, qn) # post"
    and 2: "find_predecessor s key = Some (Inr r)"
    and 3: "\<forall>x \<in> set (tl (pre @ [(r, rn)])). element (snd x) < key"
    and 4: "post = [] \<or> key \<le> element qn"
    by (rule located)
  define L where "L = tl (map (\<lambda>x. element (snd x)) (pre @ [(r, rn)]))"
  define R where "R = butlast (map (\<lambda>x. element (snd x)) ((q, qn) # post))"
  have c: "chain (nodes s) (link s) (pre @ (r, rn) # (q, qn) # post)"
    using as(1) 1 by simp
  have e: "elems s = L @ R"
    unfolding L_def R_def using c by (rule located_elems)
  have s: "sorted_wrt (<) (L @ R)" using so e by simp
  have l: "\<forall>x \<in> set L. x < key"
    using 3 by (simp add: L_def map_tl [symmetric] del: map_append)
  have Rn: "R = [] \<longleftrightarrow> post = []" unfolding R_def by (rule successor_elems)
  have Rh: "hd R = element qn" if "post \<noteq> []"
    unfolding R_def using that by (simp add: successor_elems)
  have r: "R = [] \<or> key \<le> hd R" using 4 Rn Rh by auto
  have "key \<in> set (L @ R) \<longleftrightarrow> R \<noteq> [] \<and> hd R = key"
    using s l r by (rule sorted_member_located)
  then have m: "key \<in> set (elems s) \<longleftrightarrow> post \<noteq> [] \<and> element qn = key"
    using e Rn Rh by auto
  have re: "reach s = Some (pre @ (r, rn) # (q, qn) # post)"
    using as(3) 1 by simp
  from c 2 L_def R_def e s l r m re 3 4 show ?thesis by (rule that)
qed

lemma member_elems:
  assumes "invariant s"
  shows "member_List_set s key = Some (Inr (key \<in> set (elems s)))"
proof -
  from assms obtain pre r rn q qn post L R where
    "chain (nodes s) (link s) (pre @ (r, rn) # (q, qn) # post)"
    "find_predecessor s key = Some (Inr r)"
    "key \<in> set (elems s) \<longleftrightarrow> post \<noteq> [] \<and> element qn = key"
    by (rule invariant_located [where key = key])
  then show ?thesis by (simp add: member_located)
qed

lemma insert_elems:
  assumes "invariant s"
  obtains s' where
    "insert_List_set s key = Some (Inr (key \<notin> set (elems s), s'))"
    "invariant s'"
    "set (elems s') = insert key (set (elems s))"
    "key \<in> set (elems s) \<longrightarrow> s' = s"
proof -
  from assms obtain pre r rn q qn post L R where
    c: "chain (nodes s) (link s) (pre @ (r, rn) # (q, qn) # post)"
    and f: "find_predecessor s key = Some (Inr r)"
    and L: "L = tl (map (\<lambda>x. element (snd x)) (pre @ [(r, rn)]))"
    and R: "R = butlast (map (\<lambda>x. element (snd x)) ((q, qn) # post))"
    and e: "elems s = L @ R"
    and so: "sorted_wrt (<) (L @ R)"
    and l: "\<forall>x \<in> set L. x < key"
    and r: "R = [] \<or> key \<le> hd R"
    and m: "key \<in> set (elems s) \<longleftrightarrow> post \<noteq> [] \<and> element qn = key"
    by (rule invariant_located [where key = key])
  note i = insert_located [OF c f]
  show ?thesis
  proof (cases "key \<in> set (elems s)")
    case True
    with i m have "insert_List_set s key = Some (Inr (key \<notin> set (elems s), s))" by simp
    with assms True show ?thesis by (intro that [of s]) auto
  next
    case False
    define s' where "s' = s\<lparr>store := (store s @ [Some \<lparr>element = key, next = Some q\<rparr>])
                                  [r := Some (rn\<lparr>next := Some (brk s)\<rparr>)]\<rparr>"
    from False i m have 1: "insert_List_set s key = Some (Inr (key \<notin> set (elems s), s'))"
      by (simp add: s'_def)
    from c s'_def have wf: "well_formed s'" and e': "elems s' = L @ key # R"
      unfolding L R by (rule spliced)+
    from False e r have "R = [] \<or> key < hd R" by (cases R) auto
    with so l have "sorted_wrt (<) (L @ key # R)" by (rule sorted_insert_located)
    with wf e' have 2: "invariant s'" by (simp add: invariant_def)
    from e e' have 3: "set (elems s') = insert key (set (elems s))" by simp
    from 1 2 3 False show ?thesis by (intro that [of s']) auto
  qed
qed

lemma remove_elems:
  assumes "invariant s"
  obtains s' where
    "remove_List_set s key = Some (Inr (key \<in> set (elems s), s'))"
    "invariant s'"
    "set (elems s') = set (elems s) - {key}"
    "key \<notin> set (elems s) \<longrightarrow> s' = s"
proof -
  from assms obtain pre r rn q qn post L R where
    c: "chain (nodes s) (link s) (pre @ (r, rn) # (q, qn) # post)"
    and f: "find_predecessor s key = Some (Inr r)"
    and L: "L = tl (map (\<lambda>x. element (snd x)) (pre @ [(r, rn)]))"
    and R: "R = butlast (map (\<lambda>x. element (snd x)) ((q, qn) # post))"
    and e: "elems s = L @ R"
    and so: "sorted_wrt (<) (L @ R)"
    and m: "key \<in> set (elems s) \<longleftrightarrow> post \<noteq> [] \<and> element qn = key"
    by (rule invariant_located [where key = key])
  note i = remove_located [OF c f]
  show ?thesis
  proof (cases "key \<in> set (elems s)")
    case False
    with i m have "remove_List_set s key = Some (Inr (key \<in> set (elems s), s))" by auto
    with assms False show ?thesis by (intro that [of s]) auto
  next
    case True
    define s' where "s' = s\<lparr>store := (store s)[r := Some (rn\<lparr>next := next qn\<rparr>), q := None]\<rparr>"
    from True m have p: "post \<noteq> []" and k: "element qn = key" by auto
    from True i m have 1: "remove_List_set s key = Some (Inr (key \<in> set (elems s), s'))"
      by (simp add: s'_def)
    from c p s'_def have wf: "well_formed s'" and e': "elems s' = L @ tl R"
      unfolding L R by (rule unlinked)+
    from p k have Rn: "R \<noteq> []" and Rh: "hd R = key"
      unfolding R by (simp_all add: successor_elems del: butlast.simps list.map)
    from so Rn Rh have "sorted_wrt (<) (L @ tl R)" "set (L @ tl R) = set (L @ R) - {key}"
      by (rule sorted_remove_located)+
    with wf e e' have 2: "invariant s'" and 3: "set (elems s') = set (elems s) - {key}"
      by (simp_all add: invariant_def)
    from 1 2 3 True show ?thesis by (intro that [of s']) auto
  qed
qed

section \<open>The sample state\<close>

lemma reach_sample:
  "reach sample = Some [(1, \<lparr>element = 0, next = Some 3\<rparr>), (3, \<lparr>element = 3, next = Some 2\<rparr>),
     (2, \<lparr>element = 8, next = Some 0\<rparr>), (0, \<lparr>element = 0, next = None\<rparr>)]"
  by (simp add: reach_def brk_def nodes_def sample_def eval_nat_numeral)

lemma elems_sample: "elems sample = [3, 8]"
  by (simp add: elems_def inner_def reach_sample)

lemma invariant_sample: "invariant sample"
  by (simp add: invariant_def well_formed_def elems_def inner_def reach_sample)

text \<open>The sample state is what two calls of \<^verbatim>\<open>insert\<close> make of a new set.\<close>

lemma sample_built:
  "\<exists>s1. insert_List_set (new_List_set 0) 8 = Some (Inr (True, s1))
       \<and> insert_List_set s1 3 = Some (Inr (True, sample))"
proof -
  define s1 :: "int List_set" where
    "s1 = \<lparr>store = [Some \<lparr>element = 0, next = None\<rparr>,
                    Some \<lparr>element = 0, next = Some 2\<rparr>,
                    Some \<lparr>element = 8, next = Some 0\<rparr>],
           link = Some 1\<rparr>"
  have 1: "insert_List_set (new_List_set 0) 8 = Some (Inr (True, s1))"
    by (simp add: insert_List_set_def find_predecessor_def find_predecessor_loop.simps
        matches_def new_List_set_def nodes_def brk_def is_last_def s1_def Let_def)
  have 2: "insert_List_set s1 3 = Some (Inr (True, sample))"
    by (simp add: insert_List_set_def find_predecessor_def find_predecessor_loop.simps
        matches_def nodes_def brk_def is_last_def s1_def sample_def Let_def)
  from 1 2 show ?thesis by blast
qed

section \<open>A search that does not return\<close>

text \<open>
  On the cyclic state, a search for a key greater than every element goes round for
  ever: no call of the loop from either node returns a value.
\<close>

lemma cyclic_loop:
  assumes "find_predecessor_loop h key ptr = Some y"
  shows "\<not> (h = nodes cyclic \<and> key = 9 \<and> ptr < 2)"
proof (rule find_predecessor_loop.raw_induct
    [where P = "\<lambda>h key ptr y. \<not> (h = nodes cyclic \<and> key = 9 \<and> ptr < 2)", OF _ assms])
  fix loop :: "(addr \<Rightarrow> int Node option) \<Rightarrow> int \<Rightarrow> addr \<Rightarrow> (error + addr) option"
    and h key ptr y
  assume IH: "\<And>h key ptr y. loop h key ptr = Some y \<Longrightarrow>
      \<not> (h = nodes cyclic \<and> key = 9 \<and> ptr < 2)"
    and step: "(case h ptr of None \<Rightarrow> Some (Inl Null_dereference)
      | Some p \<Rightarrow>
          case next p of None \<Rightarrow> Some (Inl Null_dereference)
          | Some q \<Rightarrow>
              case h q of None \<Rightarrow> Some (Inl Null_dereference)
              | Some n \<Rightarrow>
                  if is_last n then Some (Inr ptr)
                  else if key \<le> element n then Some (Inr ptr)
                       else loop h key q) = Some y"
  show "\<not> (h = nodes cyclic \<and> key = 9 \<and> ptr < 2)"
  proof
    assume a: "h = nodes cyclic \<and> key = 9 \<and> ptr < 2"
    then have "ptr = 0 \<or> ptr = 1" by auto
    then show False
    proof
      assume "ptr = 0"
      with a step have "loop (nodes cyclic) 9 1 = Some y"
        by (simp add: nodes_def cyclic_def is_last_def)
      with IH show False by fastforce
    next
      assume "ptr = 1"
      with a step have "loop (nodes cyclic) 9 0 = Some y"
        by (simp add: nodes_def cyclic_def is_last_def)
      with IH show False by fastforce
    qed
  qed
qed

lemma cyclic_diverges: "find_predecessor cyclic 9 = None"
proof (cases "find_predecessor cyclic 9")
  case None
  then show ?thesis .
next
  case (Some y)
  then have "find_predecessor_loop (nodes cyclic) 9 0 = Some y"
    by (simp add: find_predecessor_def cyclic_def)
  then show ?thesis using cyclic_loop by fastforce
qed

lemma cyclic_not_well_formed: "\<not> well_formed cyclic"
  by (simp add: well_formed_def reach_def brk_def nodes_def cyclic_def eval_nat_numeral)

section \<open>The claims\<close>

text \<open>
  Claim C1. The invariant of the sequential \<^verbatim>\<open>List_set\<close> is preserved by every operation.
  Suppose that before the call the chain from the head sentinel to the tail sentinel is
  acyclic (a finite walk from \<^verbatim>\<open>link_\<close> reaches the null link), that no node occurs twice in
  it, and that the elements between the sentinels are strictly ascending. Then
  \<^verbatim>\<open>member\<close>, \<^verbatim>\<open>insert\<close> and \<^verbatim>\<open>remove\<close> each return, without following a null or dangling
  link, and the state \<^verbatim>\<open>insert\<close> and \<^verbatim>\<open>remove\<close> leave behind satisfies the same invariant
  (\<^verbatim>\<open>member\<close> is const and has no state to leave behind).
\<close>

theorem invariant_preserved:
  assumes "invariant s"
  shows "(\<exists>b. member_List_set s key = Some (Inr b))
       \<and> (\<exists>b s'. insert_List_set s key = Some (Inr (b, s')) \<and> invariant s')
       \<and> (\<exists>b s'. remove_List_set s key = Some (Inr (b, s')) \<and> invariant s')"
proof (intro conjI)
  show "\<exists>b. member_List_set s key = Some (Inr b)"
    using member_elems [OF assms] by blast
  from assms obtain s' where "insert_List_set s key = Some (Inr (key \<notin> set (elems s), s'))"
    "invariant s'" by (rule insert_elems)
  then show "\<exists>b s'. insert_List_set s key = Some (Inr (b, s')) \<and> invariant s'" by blast
  from assms obtain s' where "remove_List_set s key = Some (Inr (key \<in> set (elems s), s'))"
    "invariant s'" by (rule remove_elems)
  then show "\<exists>b s'. remove_List_set s key = Some (Inr (b, s')) \<and> invariant s'" by blast
qed

theorem invariant_preserved_witness:
  "invariant sample
   \<and> (\<exists>b. member_List_set sample 5 = Some (Inr b))
   \<and> (\<exists>b s'. insert_List_set sample 5 = Some (Inr (b, s')) \<and> invariant s')
   \<and> (\<exists>b s'. remove_List_set sample 5 = Some (Inr (b, s')) \<and> invariant s')"
proof -
  have h: "invariant sample"
    by (simp add: invariant_def well_formed_def elems_def inner_def reach_sample)
  from h invariant_preserved [OF h, of 5] show ?thesis by (rule conjI)
qed

text \<open>
  Claim C2. In every state that satisfies the invariant, and for every key,
  \<^verbatim>\<open>find_predecessor(key)\<close> returns a node \<open>r\<close> that has a successor \<open>q\<close>, and \<^verbatim>\<open>member(key)\<close>
  returns true if and only if \<open>q\<close> is not the tail sentinel and holds \<^verbatim>\<open>key\<close>; that is, if
  and only if \<^verbatim>\<open>key\<close> is an element of the set.
\<close>

theorem member_correct:
  assumes "invariant s"
  shows "\<exists>r rn q qn.
           find_predecessor s key = Some (Inr r) \<and> nodes s r = Some rn \<and>
           next rn = Some q \<and> nodes s q = Some qn \<and>
           member_List_set s key = Some (Inr (\<not> is_last qn \<and> element qn = key)) \<and>
           member_List_set s key = Some (Inr (key \<in> set (elems s)))"
proof -
  from assms obtain pre r rn q qn post L R where
    c: "chain (nodes s) (link s) (pre @ (r, rn) # (q, qn) # post)"
    and f: "find_predecessor s key = Some (Inr r)"
    by (rule invariant_located [where key = key])
  from c have n: "nodes s r = Some rn" "next rn = Some q" "nodes s q = Some qn"
    by (auto dest: chain_inner_link)
  with f have "member_List_set s key = Some (Inr (\<not> is_last qn \<and> element qn = key))"
    by (simp add: member_List_set_def matches_def)
  with f n member_elems [OF assms, of key] show ?thesis by blast
qed

theorem member_correct_witness:
  "invariant sample \<and> member_List_set sample 3 = Some (Inr True)
   \<and> member_List_set sample 5 = Some (Inr False)"
proof -
  have h: "invariant sample"
    by (simp add: invariant_def well_formed_def elems_def inner_def reach_sample)
  from member_correct [OF h, of 3] member_correct [OF h, of 5] h show ?thesis
    by (auto simp: elems_sample)
qed

text \<open>
  Claim C3. In every state that satisfies the invariant, \<^verbatim>\<open>insert(key)\<close> returns false and
  leaves the state as it is when \<^verbatim>\<open>key\<close> is already an element. Otherwise it returns true,
  and the chain afterwards is the chain before with one new node, at an address that
  held no live node before and holding \<^verbatim>\<open>key\<close>, between the node \<open>r\<close> that
  \<^verbatim>\<open>find_predecessor(key)\<close> returns and the successor \<open>q\<close> that \<open>r\<close> had. In both cases the elements afterwards are the elements
  before together with \<^verbatim>\<open>key\<close>.
\<close>

theorem insert_correct:
  assumes "invariant s"
  shows "(key \<in> set (elems s) \<longrightarrow> insert_List_set s key = Some (Inr (False, s)))
       \<and> (key \<notin> set (elems s) \<longrightarrow>
            (\<exists>pre r rn q qn post s'.
               reach s = Some (pre @ (r, rn) # (q, qn) # post) \<and>
               find_predecessor s key = Some (Inr r) \<and>
               insert_List_set s key = Some (Inr (True, s')) \<and>
               nodes s (brk s) = None \<and>
               brk s \<notin> fst ` set (pre @ (r, rn) # (q, qn) # post) \<and>
               reach s' = Some (pre @ (r, rn\<lparr>next := Some (brk s)\<rparr>)
                                  # (brk s, \<lparr>element = key, next = Some q\<rparr>) # (q, qn) # post)))
       \<and> (\<exists>b s'. insert_List_set s key = Some (Inr (b, s')) \<and>
              set (elems s') = set (elems s) \<union> {key})"
proof (intro conjI impI)
  from assms obtain s' where i: "insert_List_set s key = Some (Inr (key \<notin> set (elems s), s'))"
    and "invariant s'"
    and e: "set (elems s') = insert key (set (elems s))"
    and u: "key \<in> set (elems s) \<longrightarrow> s' = s"
    by (rule insert_elems [where key = key])
  from i e show "\<exists>b s'. insert_List_set s key = Some (Inr (b, s')) \<and>
      set (elems s') = set (elems s) \<union> {key}" by auto
  show "insert_List_set s key = Some (Inr (False, s))" if "key \<in> set (elems s)"
    using i u that by simp
next
  assume new: "key \<notin> set (elems s)"
  from assms obtain pre r rn q qn post L R where
    c: "chain (nodes s) (link s) (pre @ (r, rn) # (q, qn) # post)"
    and f: "find_predecessor s key = Some (Inr r)"
    and m: "key \<in> set (elems s) \<longleftrightarrow> post \<noteq> [] \<and> element qn = key"
    and re: "reach s = Some (pre @ (r, rn) # (q, qn) # post)"
    by (rule invariant_located [where key = key])
  define s' where "s' = s\<lparr>store := (store s @ [Some \<lparr>element = key, next = Some q\<rparr>])
                                [r := Some (rn\<lparr>next := Some (brk s)\<rparr>)]\<rparr>"
  from new m insert_located [OF c f] have 1: "insert_List_set s key = Some (Inr (True, s'))"
    by (simp add: s'_def)
  from c s'_def have 2: "reach s' = Some (pre @ (r, rn\<lparr>next := Some (brk s)\<rparr>)
        # (brk s, \<lparr>element = key, next = Some q\<rparr>) # (q, qn) # post)"
    by (rule spliced)
  from c have "list_all (\<lambda>x. fst x < brk s) (pre @ (r, rn) # (q, qn) # post)"
    by (rule chain_live)
  then have 3: "brk s \<notin> fst ` set (pre @ (r, rn) # (q, qn) # post)"
    by (rule bound_fresh)
  have 4: "nodes s (brk s) = None" by (simp add: nodes_def brk_def)
  from re f 1 4 3 2 show "\<exists>pre r rn q qn post s'.
      reach s = Some (pre @ (r, rn) # (q, qn) # post) \<and>
      find_predecessor s key = Some (Inr r) \<and>
      insert_List_set s key = Some (Inr (True, s')) \<and>
      nodes s (brk s) = None \<and>
      brk s \<notin> fst ` set (pre @ (r, rn) # (q, qn) # post) \<and>
      reach s' = Some (pre @ (r, rn\<lparr>next := Some (brk s)\<rparr>)
                         # (brk s, \<lparr>element = key, next = Some q\<rparr>) # (q, qn) # post)"
    by blast
qed

theorem insert_correct_witness:
  "invariant sample
   \<and> insert_List_set sample 3 = Some (Inr (False, sample))
   \<and> (\<exists>b s'. insert_List_set sample 5 = Some (Inr (b, s')) \<and> set (elems s') = {3, 5, 8})"
proof -
  have h: "invariant sample"
    by (simp add: invariant_def well_formed_def elems_def inner_def reach_sample)
  from insert_correct [OF h, of 3] insert_correct [OF h, of 5] h show ?thesis
    by (simp add: elems_sample insert_commute)
qed

text \<open>
  Claim C4. In every state that satisfies the invariant, \<^verbatim>\<open>remove(key)\<close> returns false and
  leaves the state as it is when \<^verbatim>\<open>key\<close> is not an element. Otherwise it returns true: the
  successor \<open>q\<close> of the node \<open>r\<close> that \<^verbatim>\<open>find_predecessor(key)\<close> returns holds \<^verbatim>\<open>key\<close>, it is
  taken out of the chain and freed, and \<open>r\<close> gets the link that \<open>q\<close> had. In both cases the
  elements afterwards are the elements before without \<^verbatim>\<open>key\<close>.
\<close>

theorem remove_correct:
  assumes "invariant s"
  shows "(key \<notin> set (elems s) \<longrightarrow> remove_List_set s key = Some (Inr (False, s)))
       \<and> (key \<in> set (elems s) \<longrightarrow>
            (\<exists>pre r rn q qn post s'.
               reach s = Some (pre @ (r, rn) # (q, qn) # post) \<and>
               find_predecessor s key = Some (Inr r) \<and>
               element qn = key \<and>
               remove_List_set s key = Some (Inr (True, s')) \<and>
               nodes s' q = None \<and>
               reach s' = Some (pre @ (r, rn\<lparr>next := next qn\<rparr>) # post)))
       \<and> (\<exists>b s'. remove_List_set s key = Some (Inr (b, s')) \<and>
              set (elems s') = set (elems s) - {key})"
proof (intro conjI impI)
  from assms obtain s' where i: "remove_List_set s key = Some (Inr (key \<in> set (elems s), s'))"
    and "invariant s'"
    and e: "set (elems s') = set (elems s) - {key}"
    and u: "key \<notin> set (elems s) \<longrightarrow> s' = s"
    by (rule remove_elems [where key = key])
  from i e show "\<exists>b s'. remove_List_set s key = Some (Inr (b, s')) \<and>
      set (elems s') = set (elems s) - {key}" by auto
  show "remove_List_set s key = Some (Inr (False, s))" if "key \<notin> set (elems s)"
    using i u that by simp
next
  assume old: "key \<in> set (elems s)"
  from assms obtain pre r rn q qn post L R where
    c: "chain (nodes s) (link s) (pre @ (r, rn) # (q, qn) # post)"
    and f: "find_predecessor s key = Some (Inr r)"
    and m: "key \<in> set (elems s) \<longleftrightarrow> post \<noteq> [] \<and> element qn = key"
    and re: "reach s = Some (pre @ (r, rn) # (q, qn) # post)"
    by (rule invariant_located [where key = key])
  define s' where "s' = s\<lparr>store := (store s)[r := Some (rn\<lparr>next := next qn\<rparr>), q := None]\<rparr>"
  from old m have p: "post \<noteq> []" and k: "element qn = key" by auto
  from old m remove_located [OF c f] have 1: "remove_List_set s key = Some (Inr (True, s'))"
    by (simp add: s'_def)
  from c p s'_def have 2: "reach s' = Some (pre @ (r, rn\<lparr>next := next qn\<rparr>) # post)"
    and 3: "nodes s' q = None"
    by (rule unlinked)+
  from re f k 1 3 2 show "\<exists>pre r rn q qn post s'.
      reach s = Some (pre @ (r, rn) # (q, qn) # post) \<and>
      find_predecessor s key = Some (Inr r) \<and>
      element qn = key \<and>
      remove_List_set s key = Some (Inr (True, s')) \<and>
      nodes s' q = None \<and>
      reach s' = Some (pre @ (r, rn\<lparr>next := next qn\<rparr>) # post)"
    by blast
qed

theorem remove_correct_witness:
  "invariant sample
   \<and> remove_List_set sample 5 = Some (Inr (False, sample))
   \<and> (\<exists>b s'. remove_List_set sample 3 = Some (Inr (b, s')) \<and> set (elems s') = {8})"
proof -
  have h: "invariant sample"
    by (simp add: invariant_def well_formed_def elems_def inner_def reach_sample)
  from remove_correct [OF h, of 5] remove_correct [OF h, of 3] h show ?thesis
    by (simp add: elems_sample)
qed

text \<open>
  Claim C5. In every state that satisfies the invariant, \<^verbatim>\<open>find_predecessor(key)\<close> returns
  a node \<open>r\<close> of the chain such that every node after the head sentinel up to and
  including \<open>r\<close> holds an element less than \<^verbatim>\<open>key\<close> (the head's own element is never
  compared), and the successor \<open>q\<close> of \<open>r\<close> is either the tail sentinel or holds an element
  that is not less than \<^verbatim>\<open>key\<close>, so that \<open>q\<close> is the first such node.
\<close>

theorem find_predecessor_correct:
  assumes "invariant s"
  shows "\<exists>pre r rn q qn post.
           reach s = Some (pre @ (r, rn) # (q, qn) # post) \<and>
           find_predecessor s key = Some (Inr r) \<and>
           (\<forall>x \<in> set (tl (pre @ [(r, rn)])). element (snd x) < key) \<and>
           (is_last qn \<and> post = [] \<or> \<not> is_last qn \<and> post \<noteq> [] \<and> key \<le> element qn)"
proof -
  from assms obtain pre r rn q qn post L R where
    c: "chain (nodes s) (link s) (pre @ (r, rn) # (q, qn) # post)"
    and f: "find_predecessor s key = Some (Inr r)"
    and re: "reach s = Some (pre @ (r, rn) # (q, qn) # post)"
    and l: "\<forall>x \<in> set (tl (pre @ [(r, rn)])). element (snd x) < key"
    and g: "post = [] \<or> key \<le> element qn"
    by (rule invariant_located [where key = key])
  from c have "chain (nodes s) (Some q) ((q, qn) # post)"
    using chain_suffix [of "nodes s" "link s" "pre @ [(r, rn)]" q qn post] by simp
  then have "is_last qn \<longleftrightarrow> post = []"
    by (cases post) (auto simp: is_last_def)
  with g have "is_last qn \<and> post = [] \<or> \<not> is_last qn \<and> post \<noteq> [] \<and> key \<le> element qn"
    by blast
  with re f l show ?thesis by blast
qed

theorem find_predecessor_correct_witness:
  "invariant sample
   \<and> (\<exists>pre r rn q qn post.
           reach sample = Some (pre @ (r, rn) # (q, qn) # post) \<and>
           find_predecessor sample 5 = Some (Inr r) \<and>
           (\<forall>x \<in> set (tl (pre @ [(r, rn)])). element (snd x) < 5) \<and>
           (is_last qn \<and> post = [] \<or> \<not> is_last qn \<and> post \<noteq> [] \<and> 5 \<le> element qn))"
proof -
  have h: "invariant sample"
    by (simp add: invariant_def well_formed_def elems_def inner_def reach_sample)
  from h find_predecessor_correct [OF h, of 5] show ?thesis by (rule conjI)
qed

text \<open>
  Claim C6. The single-thread round trips, in every state that satisfies the invariant
  and for every key (the specification's 5 is one of them): after \<^verbatim>\<open>insert(key)\<close>,
  \<^verbatim>\<open>member(key)\<close> returns true; after \<^verbatim>\<open>remove(key)\<close>, \<^verbatim>\<open>member(key)\<close> returns false and a
  second \<^verbatim>\<open>remove(key)\<close> returns false; and on a set that does not contain \<^verbatim>\<open>key\<close>, two
  calls of \<^verbatim>\<open>insert(key)\<close> in a row return true and then false.
\<close>

theorem round_trips:
  assumes "invariant s"
  shows "(\<exists>b s1. insert_List_set s key = Some (Inr (b, s1)) \<and>
                  member_List_set s1 key = Some (Inr True))
       \<and> (\<exists>b s1. remove_List_set s key = Some (Inr (b, s1)) \<and>
                  member_List_set s1 key = Some (Inr False) \<and>
                  remove_List_set s1 key = Some (Inr (False, s1)))
       \<and> (key \<notin> set (elems s) \<longrightarrow>
            (\<exists>s1. insert_List_set s key = Some (Inr (True, s1)) \<and>
                  insert_List_set s1 key = Some (Inr (False, s1))))"
proof (intro conjI impI)
  from assms obtain s1 where i: "insert_List_set s key = Some (Inr (key \<notin> set (elems s), s1))"
    and v: "invariant s1"
    and e: "set (elems s1) = insert key (set (elems s))"
    and "key \<in> set (elems s) \<longrightarrow> s1 = s"
    by (rule insert_elems [where key = key])
  from v e have m: "member_List_set s1 key = Some (Inr True)"
    by (simp add: member_elems)
  with i show "\<exists>b s1. insert_List_set s key = Some (Inr (b, s1)) \<and>
      member_List_set s1 key = Some (Inr True)" by blast
  from v obtain s2 where j: "insert_List_set s1 key = Some (Inr (key \<notin> set (elems s1), s2))"
    and "invariant s2"
    and "set (elems s2) = insert key (set (elems s1))"
    and u: "key \<in> set (elems s1) \<longrightarrow> s2 = s1"
    by (rule insert_elems [where key = key])
  from e u have "s2 = s1" by simp
  with j e have "insert_List_set s1 key = Some (Inr (False, s1))" by simp
  with i show "\<exists>s1. insert_List_set s key = Some (Inr (True, s1)) \<and>
      insert_List_set s1 key = Some (Inr (False, s1))" if "key \<notin> set (elems s)"
    using that by auto
next
  from assms obtain s1 where i: "remove_List_set s key = Some (Inr (key \<in> set (elems s), s1))"
    and v: "invariant s1"
    and e: "set (elems s1) = set (elems s) - {key}"
    and "key \<notin> set (elems s) \<longrightarrow> s1 = s"
    by (rule remove_elems [where key = key])
  from v e have m: "member_List_set s1 key = Some (Inr False)"
    by (simp add: member_elems)
  from v obtain s2 where j: "remove_List_set s1 key = Some (Inr (key \<in> set (elems s1), s2))"
    and "invariant s2"
    and "set (elems s2) = set (elems s1) - {key}"
    and u: "key \<notin> set (elems s1) \<longrightarrow> s2 = s1"
    by (rule remove_elems [where key = key])
  from e u have "s2 = s1" by simp
  with j e have "remove_List_set s1 key = Some (Inr (False, s1))" by simp
  with i m show "\<exists>b s1. remove_List_set s key = Some (Inr (b, s1)) \<and>
      member_List_set s1 key = Some (Inr False) \<and>
      remove_List_set s1 key = Some (Inr (False, s1))" by blast
qed

theorem round_trips_witness:
  "invariant sample
   \<and> (\<exists>b s1. insert_List_set sample 5 = Some (Inr (b, s1)) \<and>
                  member_List_set s1 5 = Some (Inr True))
   \<and> (\<exists>b s1. remove_List_set sample 5 = Some (Inr (b, s1)) \<and>
                  member_List_set s1 5 = Some (Inr False) \<and>
                  remove_List_set s1 5 = Some (Inr (False, s1)))
   \<and> (\<exists>s1. insert_List_set sample 5 = Some (Inr (True, s1)) \<and>
                  insert_List_set s1 5 = Some (Inr (False, s1)))"
proof -
  have h: "invariant sample"
    by (simp add: invariant_def well_formed_def elems_def inner_def reach_sample)
  from round_trips [OF h, of 5] h show ?thesis
    by (simp add: elems_sample)
qed

text \<open>
  Claim C7. A newly constructed \<^verbatim>\<open>List_set\<close> is empty: \<^verbatim>\<open>link_\<close> owns the head sentinel, whose
  link points straight at the tail sentinel, the chain consists of these two nodes, and
  \<^verbatim>\<open>member(key)\<close> returns false for every key.
\<close>

theorem new_List_set_empty:
  "head (new_List_set d) = Some 1
   \<and> nodes (new_List_set d) 1 = Some \<lparr>element = d, next = Some 0\<rparr>
   \<and> nodes (new_List_set d) 0 = Some \<lparr>element = d, next = None\<rparr>
   \<and> is_last \<lparr>element = d, next = None\<rparr>
   \<and> reach (new_List_set d) =
       Some [(1, \<lparr>element = d, next = Some 0\<rparr>), (0, \<lparr>element = d, next = None\<rparr>)]
   \<and> elems (new_List_set d) = []
   \<and> invariant (new_List_set d)
   \<and> member_List_set (new_List_set d) key = Some (Inr False)"
proof -
  have r: "reach (new_List_set d) =
       Some [(1, \<lparr>element = d, next = Some 0\<rparr>), (0, \<lparr>element = d, next = None\<rparr>)]"
    by (simp add: reach_def brk_def nodes_def new_List_set_def eval_nat_numeral)
  have e: "elems (new_List_set d) = []"
    by (simp add: elems_def inner_def r)
  have i: "invariant (new_List_set d)"
    by (simp add: invariant_def well_formed_def e r)
  have m: "member_List_set (new_List_set d) key = Some (Inr False)"
    using member_elems [OF i, of key] e by simp
  have "head (new_List_set d) = Some 1"
    "nodes (new_List_set d) 1 = Some \<lparr>element = d, next = Some 0\<rparr>"
    "nodes (new_List_set d) 0 = Some \<lparr>element = d, next = None\<rparr>"
    "is_last \<lparr>element = d, next = None\<rparr>"
    by (simp_all add: head_def nodes_def new_List_set_def is_last_def)
  with r e i m show ?thesis by blast
qed

text \<open>
  Claim C8. \<^verbatim>\<open>find_predecessor(key)\<close> terminates for every key in every well-formed state,
  that is, whenever a finite chain of at least two live nodes leads from \<^verbatim>\<open>link_\<close> to a
  null link. The last node of that chain is the one for which \<^verbatim>\<open>is_last()\<close> holds, and the
  search returns one of the nodes before it: the loop condition
  \<^verbatim>\<open>!ptr->next->is_last()\<close> stops the walk in front of the tail sentinel at the latest,
  whatever the key.
\<close>

theorem find_predecessor_terminates:
  assumes "well_formed s"
  shows "\<exists>as r. reach s = Some as \<and> is_last (snd (last as)) \<and>
           find_predecessor s key = Some (Inr r) \<and> r \<in> fst ` set (butlast as)"
proof -
  from assms obtain as where c: "chain (nodes s) (link s) as" and n: "2 \<le> length as"
    and re: "reach s = Some as"
    by (rule well_formed_chain)
  from n have "as \<noteq> []" by auto
  then have "as = butlast as @ [(fst (last as), snd (last as))]" by simp
  with c have "chain (nodes s) (link s) (butlast as @ [(fst (last as), snd (last as))])"
    by simp
  then have "next (snd (last as)) = None" by (rule chain_last_link)
  then have l: "is_last (snd (last as))" by (simp add: is_last_def)
  from c n obtain pre r rn q qn post where
    a: "as = pre @ (r, rn) # (q, qn) # post"
    and f: "find_predecessor s key = Some (Inr r)"
    by (rule located [where key = key])
  from a have "butlast as = pre @ (r, rn) # butlast ((q, qn) # post)"
    by (simp add: butlast_append)
  then have "r \<in> fst ` set (butlast as)" by force
  with re l f show ?thesis by blast
qed

theorem find_predecessor_terminates_witness:
  "well_formed sample \<and> (\<exists>r. find_predecessor sample 9 = Some (Inr r) \<and> r \<in> {1, 3, 2})"
proof -
  have h: "well_formed sample"
    by (simp add: well_formed_def reach_sample)
  from find_predecessor_terminates [OF h, of 9] h show ?thesis
    by (simp add: reach_sample)
qed

text \<open>
  Claim C9. In every well-formed state (a finite chain of at least two live nodes leads
  from \<^verbatim>\<open>link_\<close> to a null link), \<^verbatim>\<open>find_predecessor(key)\<close> returns a node that is not the tail
  sentinel: its \<^verbatim>\<open>next\<close> link is not null and points to a live node. Hence \<^verbatim>\<open>matches\<close>,
  \<^verbatim>\<open>member\<close>, \<^verbatim>\<open>insert\<close> and \<^verbatim>\<open>remove\<close> all return a result and none of them follows a
  null link.
\<close>

theorem no_null_dereference:
  assumes "well_formed s"
  shows "\<exists>r rn q qn.
           find_predecessor s key = Some (Inr r) \<and>
           nodes s r = Some rn \<and> \<not> is_last rn \<and> next rn = Some q \<and> nodes s q = Some qn \<and>
           (\<exists>b. matches (nodes s) r key = Inr b) \<and>
           (\<exists>b. member_List_set s key = Some (Inr b)) \<and>
           (\<exists>b s'. insert_List_set s key = Some (Inr (b, s'))) \<and>
           (\<exists>b s'. remove_List_set s key = Some (Inr (b, s')))"
proof -
  from assms obtain as where "chain (nodes s) (link s) as" and "2 \<le> length as"
    and "reach s = Some as"
    by (rule well_formed_chain)
  then obtain pre r rn q qn post where
    c: "chain (nodes s) (link s) (pre @ (r, rn) # (q, qn) # post)"
    and f: "find_predecessor s key = Some (Inr r)"
    using located [where key = key and s = s and as = as] by metis
  from c have n: "nodes s r = Some rn" "next rn = Some q" "nodes s q = Some qn"
    by (auto dest: chain_inner_link)
  then have l: "\<not> is_last rn" by (simp add: is_last_def)
  have 1: "\<exists>b. matches (nodes s) r key = Inr b"
    using matches_located [OF c, of key] by blast
  have 2: "\<exists>b. member_List_set s key = Some (Inr b)"
    using member_located [OF c f] by blast
  have 3: "\<exists>b s'. insert_List_set s key = Some (Inr (b, s'))"
    using insert_located [OF c f] by (cases "post \<noteq> [] \<and> element qn = key") auto
  have 4: "\<exists>b s'. remove_List_set s key = Some (Inr (b, s'))"
    using remove_located [OF c f] by (cases "post \<noteq> [] \<and> element qn = key") auto
  from f n l 1 2 3 4 show ?thesis by blast
qed

theorem no_null_dereference_witness:
  "well_formed sample
   \<and> (\<exists>r rn q qn.
           find_predecessor sample 9 = Some (Inr r) \<and>
           nodes sample r = Some rn \<and> \<not> is_last rn \<and> next rn = Some q \<and>
           nodes sample q = Some qn \<and>
           (\<exists>b. matches (nodes sample) r 9 = Inr b) \<and>
           (\<exists>b. member_List_set sample 9 = Some (Inr b)) \<and>
           (\<exists>b s'. insert_List_set sample 9 = Some (Inr (b, s'))) \<and>
           (\<exists>b s'. remove_List_set sample 9 = Some (Inr (b, s'))))"
proof -
  have h: "well_formed sample"
    by (simp add: well_formed_def reach_sample)
  from h no_null_dereference [OF h, of 9] show ?thesis by (rule conjI)
qed

end
